theory Spec2Isabelle
  imports Main
begin

section \<open>The pausable controller of src/pausable.ts\<close>

subsection \<open>Commands and lifecycle states\<close>

text \<open>
  The control subject carries the four string literals
  \<^verbatim>\<open>'start' | 'stop' | 'pause' | 'resume'\<close>; the accumulator of \<^verbatim>\<open>scan\<close> only ever
  holds the seed \<^verbatim>\<open>'stopped'\<close>, one of the literals the callback returns
  (\<^verbatim>\<open>'running'\<close>, \<^verbatim>\<open>'stopped'\<close>, \<^verbatim>\<open>'paused'\<close>) or the previous accumulator.
\<close>

datatype action = Start | Stop | Pause | Resume

datatype lifecycle = Stopped | Running | Paused

text \<open>
  The callback handed to \<^verbatim>\<open>scan\<close> (pausable.ts, lines 20 to 26), with its four
  guarded returns in the order of the source and the final \<^verbatim>\<open>return state\<close>.
\<close>

definition reducer :: "lifecycle \<Rightarrow> action \<Rightarrow> lifecycle" where
  "reducer state action =
     (if action = Start \<and> state \<noteq> Running then Running
      else if action = Stop then Stopped
      else if action = Pause \<and> state = Running then Paused
      else if action = Resume \<and> state = Paused then Running
      else state)"

text \<open>
  The transition table as the specification prints it (section 4.1), one equation per
  cell. It is compared with \<open>reducer\<close> below and never used to define the program.
\<close>

fun transition_table :: "lifecycle \<Rightarrow> action \<Rightarrow> lifecycle" where
  "transition_table Stopped Start = Running"
| "transition_table Stopped Stop = Stopped"
| "transition_table Stopped Pause = Stopped"
| "transition_table Stopped Resume = Stopped"
| "transition_table Running Start = Running"
| "transition_table Running Stop = Stopped"
| "transition_table Running Pause = Paused"
| "transition_table Running Resume = Running"
| "transition_table Paused Start = Running"
| "transition_table Paused Stop = Stopped"
| "transition_table Paused Pause = Paused"
| "transition_table Paused Resume = Running"

text \<open>
  The callback handed to \<^verbatim>\<open>switchMap\<close> (lines 27 to 30) picks the inner observable:
  the wrapped \<^verbatim>\<open>source$\<close> when the state is \<^verbatim>\<open>'running'\<close>, \<^verbatim>\<open>EMPTY\<close> otherwise.
\<close>

datatype selected = Source | Empty

definition project :: "lifecycle \<Rightarrow> selected" where
  "project state = (if state = Running then Source else Empty)"

subsection \<open>The two stream operators in front of the gate\<close>

text \<open>
  On a finite sequence of values pushed through them, \<^verbatim>\<open>startWith(x)\<close> puts \<open>x\<close> in
  front and \<^verbatim>\<open>scan(f, seed)\<close> emits every intermediate accumulation, the seed itself
  not being emitted.
\<close>

definition startWith :: "'a \<Rightarrow> 'a list \<Rightarrow> 'a list" where
  "startWith x xs = x # xs"

fun scan :: "('s \<Rightarrow> 'a \<Rightarrow> 's) \<Rightarrow> 's \<Rightarrow> 'a list \<Rightarrow> 's list" where
  "scan f acc [] = []"
| "scan f acc (x # xs) = f acc x # scan f (f acc x) xs"

text \<open>
  The states that \<^verbatim>\<open>control$.pipe(startWith('stop'), scan(..., 'stopped'))\<close> hands to the
  gate when the commands \<open>cmds\<close> are pushed into \<^verbatim>\<open>control$\<close>.
\<close>

definition lifecycle_states :: "action list \<Rightarrow> lifecycle list" where
  "lifecycle_states cmds = scan reducer Stopped (startWith Stop cmds)"

subsection \<open>Observables and notifications\<close>

text \<open>
  An observer is handed values, at most one error and at most one completion. The wrapped
  \<^verbatim>\<open>source$\<close> is any observable; it is modelled by what it hands, at virtual time \<open>t\<close>, to
  a subscriber that subscribed at time \<open>t0\<close>. The notifications at \<open>t = t0\<close> are the ones
  emitted synchronously inside \<^verbatim>\<open>subscribe\<close>. A cold observable depends on \<open>t - t0\<close> only,
  a hot one on \<open>t\<close> only.
\<close>

datatype ('a, 'e) notification = Next 'a | Error 'e | Complete

type_synonym ('a, 'e) observable = "nat \<Rightarrow> nat \<Rightarrow> ('a, 'e) notification list"

text \<open>
  The producers of the test suite: \<^verbatim>\<open>of(...)\<close>, \<^verbatim>\<open>throwError\<close> and \<^verbatim>\<open>interval(p)\<close>, with
  the virtual clock counting milliseconds as the fake timers of the tests do.
  \<^verbatim>\<open>interval(p)\<close> hands its period to \<^verbatim>\<open>setInterval\<close>, and Node replaces a delay below 1
  or above 2147483647 by 1; the upper bound is compared on integers.
\<close>

definition of_values :: "'a list \<Rightarrow> ('a, 'e) observable" where
  "of_values vs t0 t = (if t = t0 then map Next vs @ [Complete] else [])"

definition throwError :: "'e \<Rightarrow> ('a, 'e) observable" where
  "throwError e t0 t = (if t = t0 then [Error e] else [])"

definition delay_of :: "nat \<Rightarrow> nat" where
  "delay_of p = (if p < 1 \<or> 2147483647 < int p then 1 else p)"

definition interval :: "nat \<Rightarrow> (nat, 'e) observable" where
  "interval p t0 t =
     (if t0 < t \<and> (t - t0) mod delay_of p = 0 then [Next ((t - t0) div delay_of p - 1)]
      else [])"

text \<open>
  A further cold producer, for the scenarios in which a subscription is still live when
  the next command arrives: it hands each subscriber the values \<open>vs\<close> and a completion
  \<open>d\<close> time units after that subscriber subscribed. For \<open>d = 0\<close> it is \<open>of_values vs\<close>.
\<close>

definition of_values_after :: "nat \<Rightarrow> 'a list \<Rightarrow> ('a, 'e) observable" where
  "of_values_after d vs t0 t = (if t = t0 + d then map Next vs @ [Complete] else [])"

subsection \<open>The state of one controller\<close>

text \<open>
  Everything \<^verbatim>\<open>createPausable\<close> allocates: the accumulator of \<^verbatim>\<open>scan\<close>, the
  \<^verbatim>\<open>innerSubscriber\<close> of \<^verbatim>\<open>switchMap\<close> (the time at which the live subscription to
  \<^verbatim>\<open>source$\<close> was made, \<open>None\<close> when there is none), the number of observers registered
  on \<^verbatim>\<open>control$\<close>, the virtual clock, what the caller's observer has been handed so far,
  and the log of subscriptions to \<^verbatim>\<open>source$\<close> made and finalised by the gate.
\<close>

datatype gate_event = Subscribed | Disposed

record ('a, 'e) pausable =
  state :: lifecycle
  innerSubscriber :: "nat option"
  observers :: nat
  now :: nat
  received :: "('a, 'e) notification list"
  gate_log :: "gate_event list"

text \<open>
  What the inner subscriber of \<^verbatim>\<open>switchMap\<close> does with the notifications of
  \<^verbatim>\<open>source$\<close>: a value goes to the caller's observer; an error goes to the caller's
  observer, which closes the downstream subscriber and tears the whole chain down (the
  inner subscription is finalised and the observer is removed from \<^verbatim>\<open>control$\<close>); a
  completion finalises the inner subscription and clears \<^verbatim>\<open>innerSubscriber\<close>, and is
  passed on only if the outer source has completed, which \<^verbatim>\<open>control$\<close> never does.
  Nothing is read after an error or a completion.
\<close>

fun deliver :: "('a, 'e) notification list \<Rightarrow> ('a, 'e) pausable \<Rightarrow> ('a, 'e) pausable" where
  "deliver [] st = st"
| "deliver (Next v # ns) st = deliver ns (st\<lparr>received := received st @ [Next v]\<rparr>)"
| "deliver (Error e # ns) st =
     st\<lparr>received := received st @ [Error e], innerSubscriber := None, observers := 0,
        gate_log := gate_log st @ [Disposed]\<rparr>"
| "deliver (Complete # ns) st =
     st\<lparr>innerSubscriber := None, gate_log := gate_log st @ [Disposed]\<rparr>"

text \<open>\<^verbatim>\<open>innerSubscriber?.unsubscribe()\<close>, the first thing \<^verbatim>\<open>switchMap\<close> does on a new state.\<close>

definition unsubscribe_inner :: "('a, 'e) pausable \<Rightarrow> ('a, 'e) pausable" where
  "unsubscribe_inner st =
     (case innerSubscriber st of
        None \<Rightarrow> st
      | Some t0 \<Rightarrow> st\<lparr>innerSubscriber := None, gate_log := gate_log st @ [Disposed]\<rparr>)"

text \<open>Subscribing to \<^verbatim>\<open>source$\<close>: the subscriber is stored, then the synchronous part runs.\<close>

definition subscribe_source ::
  "('a, 'e) observable \<Rightarrow> ('a, 'e) pausable \<Rightarrow> ('a, 'e) pausable" where
  "subscribe_source src st =
     deliver (src (now st) (now st))
       (st\<lparr>innerSubscriber := Some (now st), gate_log := gate_log st @ [Subscribed]\<rparr>)"

text \<open>
  \<^verbatim>\<open>switchMap\<close> on a state emitted by \<^verbatim>\<open>scan\<close>: drop the previous inner subscription,
  then subscribe to the selected observable. \<^verbatim>\<open>EMPTY\<close> completes inside \<^verbatim>\<open>subscribe\<close>,
  which leaves \<^verbatim>\<open>innerSubscriber\<close> cleared and hands nothing downstream.
\<close>

definition switchMap :: "('a, 'e) observable \<Rightarrow> ('a, 'e) pausable \<Rightarrow> ('a, 'e) pausable" where
  "switchMap src st =
     (let st1 = unsubscribe_inner st in
      case project (state st1) of
        Source \<Rightarrow> subscribe_source src st1
      | Empty \<Rightarrow> st1)"

text \<open>One value entering \<^verbatim>\<open>scan\<close>: the accumulator is replaced, and its new value is emitted.\<close>

definition on_action ::
  "('a, 'e) observable \<Rightarrow> action \<Rightarrow> ('a, 'e) pausable \<Rightarrow> ('a, 'e) pausable" where
  "on_action src a st = switchMap src (st\<lparr>state := reducer (state st) a\<rparr>)"

text \<open>\<^verbatim>\<open>control$.next(a)\<close>: a subject hands the value to its observers, if it has any.\<close>

definition control_next ::
  "('a, 'e) observable \<Rightarrow> action \<Rightarrow> ('a, 'e) pausable \<Rightarrow> ('a, 'e) pausable" where
  "control_next src a st = (if observers st = 0 then st else on_action src a st)"

text \<open>
  \<^verbatim>\<open>createPausable(source$, observer)\<close>: the only \<^verbatim>\<open>subscribe\<close> call of the function
  (line 34) runs \<^verbatim>\<open>startWith('stop')\<close> through \<^verbatim>\<open>scan\<close>, seeded with \<^verbatim>\<open>'stopped'\<close>, and
  through \<^verbatim>\<open>switchMap\<close>, and then registers the chain as an observer of \<^verbatim>\<open>control$\<close>.
\<close>

definition createPausable :: "('a, 'e) observable \<Rightarrow> ('a, 'e) pausable" where
  "createPausable src =
     (let st0 = \<lparr>state = Stopped, innerSubscriber = None, observers = 0, now = 0,
                 received = [], gate_log = []\<rparr>;
          st1 = on_action src Stop st0
      in st1\<lparr>observers := observers st1 + 1\<rparr>)"

text \<open>
  The returned handle (lines 36 to 43) has five members and no other: each one calls
  \<^verbatim>\<open>control$.next\<close> with a command.
\<close>

datatype call = CallStart | CallStop | CallPause | CallResume | CallCommand action

fun emitted :: "call \<Rightarrow> action" where
  "emitted CallStart = Start"
| "emitted CallStop = Stop"
| "emitted CallPause = Pause"
| "emitted CallResume = Resume"
| "emitted (CallCommand a) = a"

text \<open>
  The virtual clock moving on by one time unit: the live inner subscription, if any,
  receives what \<^verbatim>\<open>source$\<close> emits at the new time.
\<close>

definition tick :: "('a, 'e) observable \<Rightarrow> ('a, 'e) pausable \<Rightarrow> ('a, 'e) pausable" where
  "tick src st =
     (let st1 = st\<lparr>now := now st + 1\<rparr> in
      case innerSubscriber st1 of
        None \<Rightarrow> st1
      | Some t0 \<Rightarrow> deliver (src t0 (now st1)) st1)"

fun advance :: "('a, 'e) observable \<Rightarrow> nat \<Rightarrow> ('a, 'e) pausable \<Rightarrow> ('a, 'e) pausable" where
  "advance src 0 st = st"
| "advance src (Suc d) st = advance src d (tick src st)"

text \<open>
  What happens to a controller from outside: a member of the handle is called, or time
  passes (\<^verbatim>\<open>vi.advanceTimersByTime(d)\<close> in the tests). Observer callbacks are taken to
  return normally and not to call the handle themselves.
\<close>

datatype event = Invoke call | Advance nat

fun step :: "('a, 'e) observable \<Rightarrow> ('a, 'e) pausable \<Rightarrow> event \<Rightarrow> ('a, 'e) pausable" where
  "step src st (Invoke c) = control_next src (emitted c) st"
| "step src st (Advance d) = advance src d st"

definition exec ::
  "('a, 'e) observable \<Rightarrow> event list \<Rightarrow> ('a, 'e) pausable \<Rightarrow> ('a, 'e) pausable" where
  "exec src evs st = foldl (step src) st evs"

definition run :: "('a, 'e) observable \<Rightarrow> event list \<Rightarrow> ('a, 'e) pausable" where
  "run src evs = exec src evs (createPausable src)"

text \<open>The commands among the events, in order.\<close>

fun commands :: "event list \<Rightarrow> action list" where
  "commands [] = []"
| "commands (Invoke c # evs) = emitted c # commands evs"
| "commands (Advance d # evs) = commands evs"

text \<open>The values among the notifications, in order.\<close>

fun values_of :: "('a, 'e) notification list \<Rightarrow> 'a list" where
  "values_of [] = []"
| "values_of (Next v # ns) = v # values_of ns"
| "values_of (Error e # ns) = values_of ns"
| "values_of (Complete # ns) = values_of ns"

text \<open>
  The number of subscriptions to \<^verbatim>\<open>source$\<close> that are live after a log of gate events:
  the ones made minus the ones finalised.
\<close>

fun live :: "gate_event list \<Rightarrow> int" where
  "live [] = 0"
| "live (Subscribed # l) = live l + 1"
| "live (Disposed # l) = live l - 1"

text \<open>
  Three readings of a batch of notifications of \<^verbatim>\<open>source$\<close>, used to state what the gate
  does with it: the part that reaches the caller's observer (values up to the first
  error or completion, and that error), whether the batch ends the subscription, and
  whether it ends it with an error.
\<close>

fun forwarded :: "('a, 'e) notification list \<Rightarrow> ('a, 'e) notification list" where
  "forwarded [] = []"
| "forwarded (Next v # ns) = Next v # forwarded ns"
| "forwarded (Error e # ns) = [Error e]"
| "forwarded (Complete # ns) = []"

fun terminated :: "('a, 'e) notification list \<Rightarrow> bool" where
  "terminated [] = False"
| "terminated (Next v # ns) = terminated ns"
| "terminated (Error e # ns) = True"
| "terminated (Complete # ns) = True"

fun failed :: "('a, 'e) notification list \<Rightarrow> bool" where
  "failed [] = False"
| "failed (Next v # ns) = failed ns"
| "failed (Error e # ns) = True"
| "failed (Complete # ns) = False"

fun is_error :: "('a, 'e) notification \<Rightarrow> bool" where
  "is_error (Error e) = True"
| "is_error (Next v) = False"
| "is_error Complete = False"

text \<open>
  The bookkeeping that every reachable controller state satisfies: \<^verbatim>\<open>control$\<close> has at
  most one observer; a torn-down or non-running controller holds no inner subscriber;
  the log of the gate agrees with \<^verbatim>\<open>innerSubscriber\<close> and never shows two live
  subscriptions; no completion has reached the caller's observer, no error has while
  the chain is still subscribed, at most one error has at all, and one has if the chain
  is no longer subscribed.
\<close>

definition consistent :: "('a, 'e) pausable \<Rightarrow> bool" where
  "consistent st \<longleftrightarrow>
     observers st \<le> 1
     \<and> (observers st = 0 \<longrightarrow> innerSubscriber st = None)
     \<and> (state st \<noteq> Running \<longrightarrow> innerSubscriber st = None)
     \<and> live (gate_log st) = (if innerSubscriber st = None then 0 else 1)
     \<and> (\<forall>n. 0 \<le> live (take n (gate_log st)) \<and> live (take n (gate_log st)) \<le> 1)
     \<and> Complete \<notin> set (received st)
     \<and> (observers st \<noteq> 0 \<longrightarrow> (\<forall>n \<in> set (received st). \<not> is_error n))
     \<and> length (filter is_error (received st)) \<le> 1
     \<and> (observers st = 0 \<longrightarrow> (\<exists>n \<in> set (received st). is_error n))"

text \<open>Producers that never raise an error.\<close>

definition never_fails :: "('a, 'e) observable \<Rightarrow> bool" where
  "never_fails src \<longleftrightarrow> (\<forall>t0 t. \<not> failed (src t0 t))"

text \<open>
  Whether the producer has ended, by a completion or an error, the subscription made at
  time \<open>t0\<close> at some time from \<open>t0\<close> up to and including \<open>t\<close>.
\<close>

definition ended :: "('a, 'e) observable \<Rightarrow> nat \<Rightarrow> nat \<Rightarrow> bool" where
  "ended src t0 t = list_ex (\<lambda>k. terminated (src t0 k)) [t0..<Suc t]"

section \<open>Facts about the model\<close>

subsection \<open>The reducer and the operators in front of the gate\<close>

lemma reducer_table: "reducer s c = transition_table s c"
  by (cases s; cases c) (simp_all add: reducer_def)

lemma last_scan: "xs \<noteq> [] \<Longrightarrow> last (scan f acc xs) = foldl f acc xs"
proof (induction xs arbitrary: acc)
  case Nil
  then show ?case by simp
next
  case (Cons x xs)
  show ?case
  proof (cases xs)
    case Nil
    then show ?thesis by simp
  next
    case (Cons y ys)
    then have "scan f (f acc x) xs \<noteq> []" by simp
    with Cons.IH [of "f acc x"] Cons show ?thesis by simp
  qed
qed

lemma last_lifecycle_states: "last (lifecycle_states cmds) = foldl reducer Stopped cmds"
proof -
  have "last (scan reducer Stopped (Stop # cmds)) = foldl reducer Stopped (Stop # cmds)"
    by (rule last_scan) simp
  moreover have "reducer Stopped Stop = Stopped"
    by (simp add: reducer_def)
  ultimately show ?thesis
    by (simp add: lifecycle_states_def startWith_def del: scan.simps)
qed

subsection \<open>What the inner subscriber does with a batch\<close>

lemma deliver_state [simp]: "state (deliver ns st) = state st"
  by (induction ns st rule: deliver.induct) simp_all

lemma deliver_now [simp]: "now (deliver ns st) = now st"
  by (induction ns st rule: deliver.induct) simp_all

lemma deliver_received: "received (deliver ns st) = received st @ forwarded ns"
  by (induction ns st rule: deliver.induct) simp_all

lemma deliver_gate_log:
  "gate_log (deliver ns st) = gate_log st @ (if terminated ns then [Disposed] else [])"
  by (induction ns st rule: deliver.induct) simp_all

lemma deliver_innerSubscriber:
  "innerSubscriber (deliver ns st) = (if terminated ns then None else innerSubscriber st)"
  by (induction ns st rule: deliver.induct) simp_all

lemma deliver_observers:
  "observers (deliver ns st) = (if failed ns then 0 else observers st)"
  by (induction ns st rule: deliver.induct) simp_all

lemmas deliver_fields =
  deliver_received deliver_gate_log deliver_innerSubscriber deliver_observers

lemma failed_terminated: "failed ns \<Longrightarrow> terminated ns"
  by (induction ns rule: failed.induct) simp_all

lemma forwarded_no_complete: "Complete \<notin> set (forwarded ns)"
  by (induction ns rule: forwarded.induct) simp_all

lemma forwarded_no_error: "\<not> failed ns \<Longrightarrow> n \<in> set (forwarded ns) \<Longrightarrow> \<not> is_error n"
  by (induction ns rule: forwarded.induct) auto

lemma forwarded_failed: "failed ns \<Longrightarrow> \<exists>n \<in> set (forwarded ns). is_error n"
  by (induction ns rule: forwarded.induct) simp_all

lemma forwarded_one_error: "length (filter is_error (forwarded ns)) \<le> 1"
  by (induction ns rule: forwarded.induct) simp_all

subsection \<open>The log of the gate\<close>

lemma live_append: "live (l @ m) = live l + live m"
  by (induction l rule: live.induct) simp_all

lemma prefixes_subscribe:
  assumes "\<forall>n. 0 \<le> live (take n l) \<and> live (take n l) \<le> 1" and "live l = 0"
  shows "0 \<le> live (take n (l @ [Subscribed])) \<and> live (take n (l @ [Subscribed])) \<le> 1"
proof (cases "n \<le> length l")
  case True
  with assms(1) show ?thesis by simp
next
  case False
  with assms(2) show ?thesis by (simp add: live_append)
qed

lemma prefixes_dispose:
  assumes "\<forall>n. 0 \<le> live (take n l) \<and> live (take n l) \<le> 1" and "live l = 1"
  shows "0 \<le> live (take n (l @ [Disposed])) \<and> live (take n (l @ [Disposed])) \<le> 1"
proof (cases "n \<le> length l")
  case True
  with assms(1) show ?thesis by simp
next
  case False
  with assms(2) show ?thesis by (simp add: live_append)
qed

subsection \<open>Every reachable state is consistent\<close>

lemma consistent_deliver:
  assumes "consistent st" and "innerSubscriber st \<noteq> None"
  shows "consistent (deliver ns st)"
proof -
  from assms have obs: "observers st = 1" and lv: "live (gate_log st) = 1"
    and run: "state st = Running"
    by (auto simp: consistent_def)
  from assms have pre: "\<forall>n. 0 \<le> live (take n (gate_log st)) \<and> live (take n (gate_log st)) \<le> 1"
    by (simp add: consistent_def)
  have "\<forall>n. 0 \<le> live (take n (gate_log (deliver ns st)))
           \<and> live (take n (gate_log (deliver ns st))) \<le> 1"
    using prefixes_dispose [OF pre lv] pre by (simp add: deliver_gate_log)
  moreover have "live (gate_log (deliver ns st))
      = (if innerSubscriber (deliver ns st) = None then 0 else 1)"
    using lv assms(2) by (simp add: deliver_fields live_append)
  moreover have "Complete \<notin> set (received (deliver ns st))"
    using assms(1) by (simp add: consistent_def deliver_received forwarded_no_complete)
  moreover have "observers (deliver ns st) \<noteq> 0 \<longrightarrow>
      (\<forall>n \<in> set (received (deliver ns st)). \<not> is_error n)"
    using assms(1) obs by (auto simp: consistent_def deliver_fields dest: forwarded_no_error)
  moreover have "observers (deliver ns st) \<le> 1"
    using obs by (simp add: deliver_observers)
  moreover have "observers (deliver ns st) = 0 \<longrightarrow>
      (\<exists>n \<in> set (received (deliver ns st)). is_error n)"
    using obs forwarded_failed [of ns] by (auto simp: deliver_fields)
  moreover have "length (filter is_error (received (deliver ns st))) \<le> 1"
  proof -
    from assms(1) obs have "filter is_error (received st) = []"
      by (simp add: consistent_def)
    with forwarded_one_error [of ns] show ?thesis
      by (simp add: deliver_received)
  qed
  moreover have "observers (deliver ns st) = 0 \<longrightarrow> innerSubscriber (deliver ns st) = None"
    using obs by (auto simp: deliver_fields dest: failed_terminated)
  moreover have "state (deliver ns st) \<noteq> Running \<longrightarrow> innerSubscriber (deliver ns st) = None"
    using run by simp
  ultimately show ?thesis
    unfolding consistent_def by blast
qed

lemma consistent_unsubscribe_inner:
  assumes "consistent st"
  shows "consistent (unsubscribe_inner st)"
proof (cases "innerSubscriber st")
  case None
  with assms show ?thesis by (simp add: unsubscribe_inner_def)
next
  case (Some t0)
  with assms have lv: "live (gate_log st) = 1"
    and pre: "\<forall>n. 0 \<le> live (take n (gate_log st)) \<and> live (take n (gate_log st)) \<le> 1"
    by (simp_all add: consistent_def)
  have "\<forall>n. 0 \<le> live (take n (gate_log st @ [Disposed]))
           \<and> live (take n (gate_log st @ [Disposed])) \<le> 1"
    using prefixes_dispose [OF pre lv] by blast
  with assms Some lv show ?thesis
    by (simp add: unsubscribe_inner_def consistent_def live_append)
qed

lemma unsubscribe_inner_fields [simp]:
  "innerSubscriber (unsubscribe_inner st) = None"
  "state (unsubscribe_inner st) = state st"
  "observers (unsubscribe_inner st) = observers st"
  "received (unsubscribe_inner st) = received st"
  "now (unsubscribe_inner st) = now st"
  by (simp_all add: unsubscribe_inner_def split: option.splits)

lemma consistent_subscribe_source:
  assumes "consistent st" and "innerSubscriber st = None" and "observers st \<noteq> 0"
    and "state st = Running"
  shows "consistent (subscribe_source src st)"
proof -
  let ?st1 = "st\<lparr>innerSubscriber := Some (now st), gate_log := gate_log st @ [Subscribed]\<rparr>"
  from assms have lv: "live (gate_log st) = 0"
    and pre: "\<forall>n. 0 \<le> live (take n (gate_log st)) \<and> live (take n (gate_log st)) \<le> 1"
    by (simp_all add: consistent_def)
  have "\<forall>n. 0 \<le> live (take n (gate_log st @ [Subscribed]))
           \<and> live (take n (gate_log st @ [Subscribed])) \<le> 1"
    using prefixes_subscribe [OF pre lv] by blast
  with assms lv have "consistent ?st1"
    by (simp add: consistent_def live_append)
  then have "consistent (deliver (src (now st) (now st)) ?st1)"
    by (rule consistent_deliver) simp
  then show ?thesis by (simp add: subscribe_source_def)
qed

lemma unsubscribe_inner_state:
  "unsubscribe_inner (st\<lparr>state := s\<rparr>) = (unsubscribe_inner st)\<lparr>state := s\<rparr>"
  by (simp add: unsubscribe_inner_def split: option.splits)

lemma consistent_state_update:
  "consistent st \<Longrightarrow> innerSubscriber st = None \<Longrightarrow> consistent (st\<lparr>state := s\<rparr>)"
  by (simp add: consistent_def)

lemma consistent_on_action:
  assumes "consistent st" and "observers st \<noteq> 0"
  shows "consistent (on_action src a st)"
proof -
  let ?s = "reducer (state st) a"
  let ?st1 = "(unsubscribe_inner st)\<lparr>state := ?s\<rparr>"
  have c1: "consistent ?st1"
    using assms(1) by (intro consistent_state_update consistent_unsubscribe_inner) simp_all
  show ?thesis
  proof (cases "?s = Running")
    case True
    have "consistent (subscribe_source src ?st1)"
      using c1 assms(2) True by (intro consistent_subscribe_source) simp_all
    with True show ?thesis
      by (simp add: on_action_def switchMap_def project_def unsubscribe_inner_state)
  next
    case False
    with c1 show ?thesis
      by (simp add: on_action_def switchMap_def project_def unsubscribe_inner_state)
  qed
qed

lemma consistent_control_next:
  "consistent st \<Longrightarrow> consistent (control_next src a st)"
  by (simp add: control_next_def consistent_on_action)

lemma consistent_tick:
  assumes "consistent st"
  shows "consistent (tick src st)"
proof (cases "innerSubscriber st")
  case None
  with assms show ?thesis by (simp add: tick_def consistent_def)
next
  case (Some t0)
  from assms have "consistent (st\<lparr>now := now st + 1\<rparr>)"
    by (simp add: consistent_def)
  then have "consistent (deliver (src t0 (now st + 1)) (st\<lparr>now := now st + 1\<rparr>))"
    by (rule consistent_deliver) (simp add: Some)
  with Some show ?thesis by (simp add: tick_def)
qed

lemma consistent_advance: "consistent st \<Longrightarrow> consistent (advance src d st)"
  by (induction d arbitrary: st) (simp_all add: consistent_tick)

lemma consistent_step: "consistent st \<Longrightarrow> consistent (step src st ev)"
  by (cases ev) (simp_all add: consistent_control_next consistent_advance)

lemma consistent_exec: "consistent st \<Longrightarrow> consistent (exec src evs st)"
  by (induction evs arbitrary: st) (simp_all add: exec_def consistent_step)

lemma createPausable_eq:
  "createPausable src =
     \<lparr>state = Stopped, innerSubscriber = None, observers = 1, now = 0,
      received = [], gate_log = []\<rparr>"
  by (simp add: createPausable_def on_action_def switchMap_def project_def reducer_def
      unsubscribe_inner_def)

lemma consistent_createPausable: "consistent (createPausable src)"
  by (simp add: createPausable_eq consistent_def)

lemma consistent_run: "consistent (run src evs)"
  by (simp add: run_def consistent_exec consistent_createPausable)

subsection \<open>A controller whose chain has been torn down\<close>

lemma tick_idle: "innerSubscriber st = None \<Longrightarrow> tick src st = st\<lparr>now := now st + 1\<rparr>"
  by (simp add: tick_def)

lemma advance_idle: "innerSubscriber st = None \<Longrightarrow> advance src d st = st\<lparr>now := now st + d\<rparr>"
  by (induction d arbitrary: st) (simp_all add: tick_idle)

lemma tick_state [simp]: "state (tick src st) = state st"
  by (simp add: tick_def Let_def split: option.splits)

lemma advance_state [simp]: "state (advance src d st) = state st"
  by (induction d arbitrary: st) simp_all

lemma on_action_state [simp]: "state (on_action src a st) = reducer (state st) a"
  by (simp add: on_action_def switchMap_def subscribe_source_def Let_def
      split: selected.splits)

lemma step_closed:
  assumes "observers st = 0" and "innerSubscriber st = None"
  shows "observers (step src st ev) = 0 \<and> innerSubscriber (step src st ev) = None
    \<and> received (step src st ev) = received st \<and> gate_log (step src st ev) = gate_log st
    \<and> state (step src st ev) = state st"
  using assms by (cases ev) (simp_all add: control_next_def advance_idle)

lemma exec_closed:
  assumes "observers st = 0" and "innerSubscriber st = None"
  shows "observers (exec src evs st) = 0 \<and> innerSubscriber (exec src evs st) = None
    \<and> received (exec src evs st) = received st \<and> gate_log (exec src evs st) = gate_log st
    \<and> state (exec src evs st) = state st"
  using assms
proof (induction evs arbitrary: st)
  case Nil
  then show ?case by (simp add: exec_def)
next
  case (Cons ev evs)
  from step_closed [OF Cons.prems, of src ev] Cons.IH [of "step src st ev"]
  show ?case by (simp add: exec_def)
qed

lemma exec_append: "exec src (evs1 @ evs2) st = exec src evs2 (exec src evs1 st)"
  by (simp add: exec_def)

lemma run_append: "run src (evs1 @ evs2) = exec src evs2 (run src evs1)"
  by (simp add: run_def exec_append)

lemma step_state:
  "observers st \<noteq> 0 \<Longrightarrow>
   state (step src st ev) = (case ev of Invoke c \<Rightarrow> reducer (state st) (emitted c) | Advance d \<Rightarrow> state st)"
  by (cases ev) (simp_all add: control_next_def)

lemma exec_state:
  assumes "consistent st" and "observers (exec src evs st) \<noteq> 0"
  shows "state (exec src evs st) = foldl reducer (state st) (commands evs)"
  using assms
proof (induction evs arbitrary: st)
  case Nil
  then show ?case by (simp add: exec_def)
next
  case (Cons ev evs)
  have ex: "exec src (ev # evs) st = exec src evs (step src st ev)"
    by (simp add: exec_def)
  have c: "consistent (step src st ev)"
    using Cons.prems(1) by (rule consistent_step)
  have live0: "observers st \<noteq> 0"
  proof
    assume z: "observers st = 0"
    with Cons.prems(1) have "innerSubscriber st = None" by (simp add: consistent_def)
    with z exec_closed [of st src "ev # evs"] Cons.prems(2) show False by simp
  qed
  have "state (exec src evs (step src st ev)) = foldl reducer (state (step src st ev)) (commands evs)"
    using c Cons.prems(2) ex by (intro Cons.IH) simp_all
  with live0 ex show ?case
    by (cases ev) (simp_all add: step_state del: step.simps)
qed

subsection \<open>The effect of one command\<close>

lemma on_action_running:
  assumes "reducer (state st) a = Running"
  shows "received (on_action src a st) = received st @ forwarded (src (now st) (now st))"
    and "gate_log (on_action src a st) =
           gate_log st @ (if innerSubscriber st = None then [] else [Disposed]) @ [Subscribed]
             @ (if terminated (src (now st) (now st)) then [Disposed] else [])"
    and "innerSubscriber (on_action src a st) =
           (if terminated (src (now st) (now st)) then None else Some (now st))"
    and "observers (on_action src a st) =
           (if failed (src (now st) (now st)) then 0 else observers st)"
    and "now (on_action src a st) = now st"
  using assms
  by (simp_all add: on_action_def switchMap_def project_def subscribe_source_def
      unsubscribe_inner_def deliver_fields split: option.splits)

lemma on_action_not_running:
  assumes "reducer (state st) a \<noteq> Running"
  shows "received (on_action src a st) = received st"
    and "gate_log (on_action src a st) =
           gate_log st @ (if innerSubscriber st = None then [] else [Disposed])"
    and "innerSubscriber (on_action src a st) = None"
    and "observers (on_action src a st) = observers st"
    and "now (on_action src a st) = now st"
  using assms
  by (simp_all add: on_action_def switchMap_def project_def unsubscribe_inner_def
      split: option.splits)

subsection \<open>Before the first start\<close>

lemma step_pristine:
  assumes "state st = Stopped \<and> innerSubscriber st = None \<and> observers st = 1
      \<and> received st = [] \<and> gate_log st = []"
    and "Start \<notin> set (commands [ev])"
  shows "state (step src st ev) = Stopped \<and> innerSubscriber (step src st ev) = None
      \<and> observers (step src st ev) = 1 \<and> received (step src st ev) = []
      \<and> gate_log (step src st ev) = []"
proof (cases ev)
  case (Invoke c)
  with assms(2) have ns: "emitted c \<noteq> Start" by simp
  with assms(1) have nr: "reducer (state st) (emitted c) \<noteq> Running"
    by (cases "emitted c") (simp_all add: reducer_def)
  have "reducer (state st) (emitted c) = Stopped"
    using ns assms(1) by (cases "emitted c") (simp_all add: reducer_def)
  with assms(1) Invoke on_action_not_running [OF nr, of src] show ?thesis
    by (simp add: control_next_def)
next
  case (Advance d)
  with assms(1) show ?thesis by (simp add: advance_idle)
qed

lemma commands_append: "commands (evs1 @ evs2) = commands evs1 @ commands evs2"
  by (induction evs1 rule: commands.induct) simp_all

lemma exec_pristine:
  assumes "state st = Stopped \<and> innerSubscriber st = None \<and> observers st = 1
      \<and> received st = [] \<and> gate_log st = []"
    and "Start \<notin> set (commands evs)"
  shows "state (exec src evs st) = Stopped \<and> innerSubscriber (exec src evs st) = None
      \<and> observers (exec src evs st) = 1 \<and> received (exec src evs st) = []
      \<and> gate_log (exec src evs st) = []"
  using assms
proof (induction evs arbitrary: st)
  case Nil
  then show ?case by (simp add: exec_def)
next
  case (Cons ev evs)
  from Cons.prems(2) have a: "Start \<notin> set (commands [ev])" and b: "Start \<notin> set (commands evs)"
    using commands_append [of "[ev]" evs] by auto
  have ex: "exec src (ev # evs) st = exec src evs (step src st ev)"
    by (simp add: exec_def)
  show ?case
    unfolding ex by (rule Cons.IH [OF step_pristine [OF Cons.prems(1) a] b])
qed

lemma run_pristine:
  assumes "Start \<notin> set (commands evs)"
  shows "state (run src evs) = Stopped \<and> innerSubscriber (run src evs) = None
      \<and> observers (run src evs) = 1 \<and> received (run src evs) = []
      \<and> gate_log (run src evs) = []"
  unfolding run_def by (rule exec_pristine [OF _ assms]) (simp add: createPausable_eq)

subsection \<open>Runs taken apart, and the test producers\<close>

lemma foldl_replicate_fixed: "f s x = s \<Longrightarrow> foldl f s (replicate n x) = s"
  by (induction n) simp_all

lemma of_values_sync:
  "forwarded (of_values vs t t) = map Next vs"
  "terminated (of_values vs t t)"
  "\<not> failed (of_values vs t t)"
  by (induction vs) (simp_all add: of_values_def)

lemma run_snoc: "run src (evs @ [ev]) = step src (run src evs) ev"
  by (simp add: run_def exec_def)

lemma run_Nil: "run src [] = createPausable src"
  by (simp add: run_def exec_def)

lemma run_Cons: "run src (ev # evs) = exec src evs (step src (createPausable src) ev)"
  by (simp add: run_def exec_def)

lemma reducer_Start [simp]: "reducer s Start = Running"
  by (cases s) (simp_all add: reducer_def)

lemma control_next_running:
  assumes "observers st \<noteq> 0" and "reducer (state st) a = Running"
  shows "received (control_next src a st) = received st @ forwarded (src (now st) (now st))"
    and "gate_log (control_next src a st) =
           gate_log st @ (if innerSubscriber st = None then [] else [Disposed]) @ [Subscribed]
             @ (if terminated (src (now st) (now st)) then [Disposed] else [])"
    and "innerSubscriber (control_next src a st) =
           (if terminated (src (now st) (now st)) then None else Some (now st))"
    and "observers (control_next src a st) =
           (if failed (src (now st) (now st)) then 0 else observers st)"
    and "state (control_next src a st) = Running"
  using assms on_action_running [OF assms(2), of src]
  by (simp_all add: control_next_def)

lemma control_next_not_running:
  assumes "reducer (state st) a \<noteq> Running"
  shows "received (control_next src a st) = received st"
    and "gate_log (control_next src a st) =
           gate_log st @ (if innerSubscriber st = None \<or> observers st = 0 then [] else [Disposed])"
    and "observers (control_next src a st) = observers st"
  using on_action_not_running [OF assms, of src]
  by (simp_all add: control_next_def)

subsection \<open>Time passing\<close>

lemma tick_fields:
  "received (tick src st) = received st @
     (case innerSubscriber st of None \<Rightarrow> [] | Some t0 \<Rightarrow> forwarded (src t0 (now st + 1)))"
  "gate_log (tick src st) = gate_log st @
     (case innerSubscriber st of None \<Rightarrow> []
      | Some t0 \<Rightarrow> if terminated (src t0 (now st + 1)) then [Disposed] else [])"
  "innerSubscriber (tick src st) =
     (case innerSubscriber st of None \<Rightarrow> None
      | Some t0 \<Rightarrow> if terminated (src t0 (now st + 1)) then None else Some t0)"
  "observers (tick src st) =
     (case innerSubscriber st of None \<Rightarrow> observers st
      | Some t0 \<Rightarrow> if failed (src t0 (now st + 1)) then 0 else observers st)"
  "now (tick src st) = now st + 1"
  by (simp_all add: tick_def Let_def deliver_fields split: option.splits)

lemma tick_subscriptions:
  "count_list (gate_log (tick src st)) Subscribed = count_list (gate_log st) Subscribed"
  by (simp add: tick_fields split: option.splits)

lemma advance_subscriptions:
  "count_list (gate_log (advance src d st)) Subscribed = count_list (gate_log st) Subscribed"
  by (induction d arbitrary: st) (simp_all add: tick_subscriptions)

lemma tick_never_fails: "never_fails src \<Longrightarrow> observers (tick src st) = observers st"
  by (simp add: tick_fields never_fails_def split: option.splits)

lemma advance_never_fails: "never_fails src \<Longrightarrow> observers (advance src d st) = observers st"
  by (induction d arbitrary: st) (simp_all add: tick_never_fails)

lemma advance_not_subscribed:
  "innerSubscriber st = None \<Longrightarrow> received (advance src d st) = received st"
  by (simp add: advance_idle)

subsection \<open>Producers that never fail\<close>

lemma step_never_fails:
  assumes "never_fails src" and "observers st = 1"
  shows "observers (step src st ev) = 1"
proof (cases ev)
  case (Invoke c)
  show ?thesis
  proof (cases "reducer (state st) (emitted c) = Running")
    case True
    from assms(2) have "observers st \<noteq> 0" by simp
    from control_next_running(4) [OF this True, of src] assms Invoke show ?thesis
      by (simp add: never_fails_def)
  next
    case False
    from control_next_not_running(3) [OF False, of src] assms Invoke show ?thesis
      by simp
  qed
next
  case (Advance d)
  with assms show ?thesis by (simp add: advance_never_fails)
qed

lemma exec_never_fails:
  "never_fails src \<Longrightarrow> observers st = 1 \<Longrightarrow> observers (exec src evs st) = 1"
proof (induction evs arbitrary: st)
  case Nil
  then show ?case by (simp add: exec_def)
next
  case (Cons ev evs)
  have "exec src (ev # evs) st = exec src evs (step src st ev)"
    by (simp add: exec_def)
  with Cons.IH [OF Cons.prems(1) step_never_fails [OF Cons.prems, of ev]] show ?case
    by simp
qed

lemma run_never_fails: "never_fails src \<Longrightarrow> observers (run src evs) = 1"
  unfolding run_def by (rule exec_never_fails) (simp_all add: createPausable_eq)

subsection \<open>More on the test producers and on forwarding\<close>

lemma forwarded_values: "forwarded (map Next vs) = map Next vs"
  by (induction vs) simp_all

lemma forwarded_values_error: "forwarded (map Next vs @ Error e # ns) = map Next vs @ [Error e]"
  by (induction vs) simp_all

lemma forwarded_values_complete: "forwarded (map Next vs @ Complete # ns) = map Next vs"
  by (induction vs) simp_all

lemma of_values_never_fails: "never_fails (of_values vs)"
proof -
  have "\<not> failed (map Next vs @ [Complete] :: ('a, 'b) notification list)"
    by (induction vs) simp_all
  then show ?thesis
    by (simp add: never_fails_def of_values_def)
qed

subsection \<open>A live subscription while time passes\<close>

lemma advance_add: "advance src (a + b) st = advance src b (advance src a st)"
  by (induction a arbitrary: st) simp_all

lemma exec_advances: "exec src (map Advance ds) st = advance src (sum_list ds) st"
proof (induction ds arbitrary: st)
  case Nil
  then show ?case by (simp add: exec_def)
next
  case (Cons d ds)
  have "exec src (map Advance (d # ds)) st = exec src (map Advance ds) (advance src d st)"
    by (simp add: exec_def)
  with Cons.IH [of "advance src d st"] show ?case
    by (simp add: advance_add)
qed

lemma advance_now [simp]: "now (advance src d st) = now st + d"
  by (induction d arbitrary: st) (simp_all add: tick_fields)

lemma advance_live:
  assumes "innerSubscriber st = Some since"
  shows "innerSubscriber (advance src d st) =
     (if \<exists>k. now st < k \<and> k \<le> now st + d \<and> terminated (src since k) then None
      else Some since)"
  using assms
proof (induction d arbitrary: st)
  case 0
  then show ?case by simp
next
  case (Suc d)
  show ?case
  proof (cases "terminated (src since (now st + 1))")
    case True
    with Suc.prems have "innerSubscriber (tick src st) = None"
      by (simp add: tick_fields)
    then have "innerSubscriber (advance src (Suc d) st) = None"
      by (simp add: advance_idle)
    moreover from True have "\<exists>k. now st < k \<and> k \<le> now st + Suc d \<and> terminated (src since k)"
      by (intro exI [of _ "now st + 1"]) simp
    ultimately show ?thesis by simp
  next
    case False
    with Suc.prems have i: "innerSubscriber (tick src st) = Some since"
      by (simp add: tick_fields)
    have "(\<exists>k. now st < k \<and> k \<le> now st + Suc d \<and> terminated (src since k))
        \<longleftrightarrow> (\<exists>k. now (tick src st) < k \<and> k \<le> now (tick src st) + d \<and> terminated (src since k))"
    proof
      assume "\<exists>k. now st < k \<and> k \<le> now st + Suc d \<and> terminated (src since k)"
      then obtain k where k: "now st < k" "k \<le> now st + Suc d" "terminated (src since k)"
        by blast
      with False have "k \<noteq> now st + 1" by auto
      with k show "\<exists>k. now (tick src st) < k \<and> k \<le> now (tick src st) + d
          \<and> terminated (src since k)"
        by (intro exI [of _ k]) (simp add: tick_fields)
    next
      assume "\<exists>k. now (tick src st) < k \<and> k \<le> now (tick src st) + d
          \<and> terminated (src since k)"
      then obtain k where "now (tick src st) < k" "k \<le> now (tick src st) + d"
        "terminated (src since k)"
        by blast
      then show "\<exists>k. now st < k \<and> k \<le> now st + Suc d \<and> terminated (src since k)"
        by (intro exI [of _ k]) (simp add: tick_fields)
    qed
    with Suc.IH [OF i] show ?thesis by simp
  qed
qed

lemma ended_iff: "ended src since t \<longleftrightarrow> (\<exists>k. since \<le> k \<and> k \<le> t \<and> terminated (src since k))"
  by (auto simp: ended_def list_ex_iff)

lemma subscribed_then_advance:
  assumes "observers st \<noteq> 0" and "reducer (state st) a = Running"
  shows "innerSubscriber (advance src d (control_next src a st)) =
     (if ended src (now st) (now st + d) then None else Some (now st))"
proof (cases "terminated (src (now st) (now st))")
  case True
  with control_next_running(3) [OF assms, of src]
  have "innerSubscriber (control_next src a st) = None" by simp
  then have "innerSubscriber (advance src d (control_next src a st)) = None"
    by (simp add: advance_idle)
  moreover from True have "ended src (now st) (now st + d)"
    unfolding ended_iff by (intro exI [of _ "now st"]) simp
  ultimately show ?thesis by simp
next
  case False
  let ?st = "control_next src a st"
  from False control_next_running(3) [OF assms, of src]
  have i: "innerSubscriber ?st = Some (now st)" by simp
  have n: "now ?st = now st"
    using assms on_action_running(5) [OF assms(2), of src] by (simp add: control_next_def)
  have "ended src (now st) (now st + d)
      \<longleftrightarrow> (\<exists>k. now st < k \<and> k \<le> now st + d \<and> terminated (src (now st) k))"
  proof
    assume "ended src (now st) (now st + d)"
    then obtain k where k: "now st \<le> k" "k \<le> now st + d" "terminated (src (now st) k)"
      unfolding ended_iff by blast
    with False have "k \<noteq> now st" by auto
    with k show "\<exists>k. now st < k \<and> k \<le> now st + d \<and> terminated (src (now st) k)"
      by (intro exI [of _ k]) simp
  next
    assume "\<exists>k. now st < k \<and> k \<le> now st + d \<and> terminated (src (now st) k)"
    then show "ended src (now st) (now st + d)"
      unfolding ended_iff by (auto intro: less_imp_le)
  qed
  with advance_live [OF i, of src d] n show ?thesis by simp
qed

lemma live_innerSubscriber:
  "consistent st \<Longrightarrow> live (gate_log st) = (if innerSubscriber st = None then 0 else 1)"
  by (simp add: consistent_def)

section \<open>The claims\<close>

lemma reducer_eq_table: "reducer = transition_table"
  by (intro ext) (rule reducer_table)

text \<open>
  Claim C1. The reducer handed to \<^verbatim>\<open>scan\<close> agrees with the transition table of section
  4.1 on every pair of a state and a command; \<open>start\<close> always gives \<open>running\<close> and
  \<open>stop\<close> always gives \<open>stopped\<close>. For every finite sequence of commands, the last state
  that \<^verbatim>\<open>startWith('stop')\<close> and \<^verbatim>\<open>scan\<close> emit is the left fold of the table from
  \<open>stopped\<close>, and so is the accumulator of a controller on which the commands were issued,
  with time passing in between, as long as its chain is subscribed to the control
  subject.
\<close>

theorem reducer_folds_transition_table:
  "reducer s c = transition_table s c
   \<and> reducer s Start = Running
   \<and> reducer s Stop = Stopped
   \<and> last (lifecycle_states cmds) = foldl transition_table Stopped cmds
   \<and> (observers (run src evs) \<noteq> 0 \<longrightarrow>
        state (run src evs) = foldl transition_table Stopped (commands evs))"
proof (intro conjI impI)
  show "reducer s c = transition_table s c"
    by (rule reducer_table)
  show "reducer s Start = Running"
    by (cases s) (simp_all add: reducer_def)
  show "reducer s Stop = Stopped"
    by (simp add: reducer_def)
  show "last (lifecycle_states cmds) = foldl transition_table Stopped cmds"
    by (simp add: last_lifecycle_states reducer_eq_table)
next
  assume "observers (run src evs) \<noteq> 0"
  then have "state (exec src evs (createPausable src))
      = foldl reducer (state (createPausable src)) (commands evs)"
    by (intro exec_state consistent_createPausable) (simp add: run_def)
  then show "state (run src evs) = foldl transition_table Stopped (commands evs)"
    by (simp add: run_def createPausable_eq reducer_eq_table)
qed

theorem reducer_folds_transition_table_witness:
  "observers (run (of_values [1::nat, 2, 3] :: (nat, unit) observable)
       [Invoke CallStart, Advance 1, Invoke CallPause]) \<noteq> 0
   \<and> state (run (of_values [1::nat, 2, 3] :: (nat, unit) observable)
       [Invoke CallStart, Advance 1, Invoke CallPause])
     = foldl transition_table Stopped
         (commands [Invoke CallStart, Advance 1, Invoke CallPause])
   \<and> foldl transition_table Stopped
         (commands [Invoke CallStart, Advance 1, Invoke CallPause]) = Paused"
proof -
  have h: "observers (run (of_values [1::nat, 2, 3] :: (nat, unit) observable)
       [Invoke CallStart, Advance 1, Invoke CallPause]) \<noteq> 0"
    by code_simp
  from h reducer_folds_transition_table
    [of Running Pause "[]" "of_values [1::nat, 2, 3] :: (nat, unit) observable"
       "[Invoke CallStart, Advance 1, Invoke CallPause]"]
  show ?thesis by simp
qed

text \<open>
  Claim C8. \<open>pause\<close> leaves every state other than \<open>running\<close> as it is, and \<open>resume\<close>
  leaves every state other than \<open>paused\<close> as it is, however often the command is
  repeated. On a controller on which only \<open>pause\<close> and \<open>resume\<close> have been issued, with
  time passing in between, the state is \<open>stopped\<close>, the caller's observer has been handed
  nothing and the producer has never been subscribed.
\<close>

theorem invalid_pause_resume_ignored:
  "(s \<noteq> Running \<longrightarrow> reducer s Pause = s \<and> foldl reducer s (replicate n Pause) = s)
   \<and> (s \<noteq> Paused \<longrightarrow> reducer s Resume = s \<and> foldl reducer s (replicate n Resume) = s)
   \<and> (set (commands evs) \<subseteq> {Pause, Resume} \<longrightarrow>
        state (run src evs) = Stopped \<and> received (run src evs) = []
        \<and> gate_log (run src evs) = [])"
proof (intro conjI impI)
  assume "s \<noteq> Running"
  then show p: "reducer s Pause = s" by (simp add: reducer_def)
  then show "foldl reducer s (replicate n Pause) = s" by (rule foldl_replicate_fixed)
next
  assume "s \<noteq> Paused"
  then show r: "reducer s Resume = s" by (simp add: reducer_def)
  then show "foldl reducer s (replicate n Resume) = s" by (rule foldl_replicate_fixed)
next
  assume "set (commands evs) \<subseteq> {Pause, Resume}"
  then have "Start \<notin> set (commands evs)" by auto
  from run_pristine [OF this, of src]
  show "state (run src evs) = Stopped" and "received (run src evs) = []"
    and "gate_log (run src evs) = []"
    by simp_all
qed

theorem invalid_pause_resume_ignored_witness:
  "Stopped \<noteq> Running \<and> Stopped \<noteq> Paused
   \<and> set (commands [Invoke CallPause, Advance 300, Invoke CallResume,
                    Invoke (CallCommand Pause)]) \<subseteq> {Pause, Resume}
   \<and> foldl reducer Stopped (replicate 3 Pause) = Stopped
   \<and> foldl reducer Stopped (replicate 3 Resume) = Stopped
   \<and> state (run (interval 100 :: (nat, unit) observable)
        [Invoke CallPause, Advance 300, Invoke CallResume, Invoke (CallCommand Pause)]) = Stopped
   \<and> received (run (interval 100 :: (nat, unit) observable)
        [Invoke CallPause, Advance 300, Invoke CallResume, Invoke (CallCommand Pause)]) = []"
proof -
  have h: "set (commands [Invoke CallPause, Advance 300, Invoke CallResume,
                    Invoke (CallCommand Pause)]) \<subseteq> {Pause, Resume}"
    by simp
  from h invalid_pause_resume_ignored
    [of Stopped 3 "[Invoke CallPause, Advance 300, Invoke CallResume, Invoke (CallCommand Pause)]"
        "interval 100 :: (nat, unit) observable"]
  show ?thesis by simp
qed

text \<open>
  Claim C9. Constructing the controller leaves exactly one observer, the reducer and gate
  chain, on the control subject, and there is never more than one. The first state the
  reducer emits, before any command of the caller, is \<open>stopped\<close>. As long as no \<open>start\<close>
  has been issued, whatever else is called and however much time passes, the producer
  has not been subscribed and the caller's observer has been handed nothing.
\<close>

theorem construction_subscribes_once_and_stays_idle:
  "observers (createPausable src) = 1
   \<and> observers (run src evs') \<le> 1
   \<and> state (createPausable src) = Stopped
   \<and> hd (lifecycle_states cmds) = Stopped
   \<and> gate_log (createPausable src) = []
   \<and> received (createPausable src) = []
   \<and> (Start \<notin> set (commands evs) \<longrightarrow>
        gate_log (run src evs) = [] \<and> received (run src evs) = []
        \<and> innerSubscriber (run src evs) = None \<and> state (run src evs) = Stopped
        \<and> observers (run src evs) = 1)"
proof (intro conjI impI)
  show "observers (run src evs') \<le> 1"
    using consistent_run [of src evs'] by (simp add: consistent_def)
  show "hd (lifecycle_states cmds) = Stopped"
    by (simp add: lifecycle_states_def startWith_def reducer_def)
next
  assume "Start \<notin> set (commands evs)"
  from run_pristine [OF this, of src]
  show "gate_log (run src evs) = []" and "received (run src evs) = []"
    and "innerSubscriber (run src evs) = None" and "state (run src evs) = Stopped"
    and "observers (run src evs) = 1"
    by simp_all
qed (simp_all add: createPausable_eq)

theorem construction_subscribes_once_and_stays_idle_witness:
  "Start \<notin> set (commands [Advance 250, Invoke CallStop, Invoke CallResume, Advance 100])
   \<and> gate_log (run (interval 100 :: (nat, unit) observable)
        [Advance 250, Invoke CallStop, Invoke CallResume, Advance 100]) = []
   \<and> received (run (interval 100 :: (nat, unit) observable)
        [Advance 250, Invoke CallStop, Invoke CallResume, Advance 100]) = []"
proof -
  have h: "Start \<notin> set (commands [Advance 250, Invoke CallStop, Invoke CallResume, Advance 100])"
    by simp
  from h construction_subscribes_once_and_stays_idle
    [of "interval 100 :: (nat, unit) observable" "[]" "[]"
        "[Advance 250, Invoke CallStop, Invoke CallResume, Advance 100]"]
  show ?thesis by simp
qed

text \<open>
  Claim C6. On a producer that raises an error inside \<open>subscribe\<close>, \<open>start\<close> hands the
  caller's observer that error and nothing else, and whatever is called afterwards and
  however much time passes, the observer has received that one error only. In general
  the observer receives at most one error, and once it has received one, no further
  event changes what it has received: the chain is no longer an observer of the control
  subject.
\<close>

theorem producer_error_ends_the_pipeline:
  "received (run (throwError e :: ('a, 'e) observable) (Invoke CallStart # evs)) = [Error e]
   \<and> length (filter is_error (received (run src before))) \<le> 1
   \<and> (Error e' \<in> set (received (run src before)) \<longrightarrow>
        received (run src (before @ later)) = received (run src before)
        \<and> observers (run src (before @ later)) = 0
        \<and> gate_log (run src (before @ later)) = gate_log (run src before))"
proof (intro conjI impI)
  let ?st0 = "createPausable (throwError e) :: ('a, 'e) pausable"
  let ?st1 = "on_action (throwError e) Start ?st0"
  have r0: "reducer (state ?st0) Start = Running" by simp
  have f1: "received ?st1 = [Error e]" "observers ?st1 = 0" "innerSubscriber ?st1 = None"
    using on_action_running [OF r0, of "throwError e"]
    by (simp_all add: throwError_def createPausable_eq)
  have "run (throwError e) (Invoke CallStart # evs) = exec (throwError e) evs ?st1"
    by (simp add: run_Cons control_next_def createPausable_eq)
  with exec_closed [OF f1(2) f1(3), of "throwError e" evs] f1(1)
  show "received (run (throwError e :: ('a, 'e) observable) (Invoke CallStart # evs)) = [Error e]"
    by simp
next
  show "length (filter is_error (received (run src before))) \<le> 1"
    using consistent_run [of src before] by (simp add: consistent_def)
next
  assume err: "Error e' \<in> set (received (run src before))"
  have c: "consistent (run src before)" by (rule consistent_run)
  have z: "observers (run src before) = 0"
  proof (rule ccontr)
    assume "observers (run src before) \<noteq> 0"
    with c have "\<forall>n \<in> set (received (run src before)). \<not> is_error n"
      by (simp add: consistent_def)
    with err show False by auto
  qed
  with c have i: "innerSubscriber (run src before) = None"
    by (simp add: consistent_def)
  from exec_closed [OF z i, of src later]
  show "received (run src (before @ later)) = received (run src before)"
    and "observers (run src (before @ later)) = 0"
    and "gate_log (run src (before @ later)) = gate_log (run src before)"
    by (simp_all add: run_append)
qed

theorem producer_error_ends_the_pipeline_witness:
  "Error (0 :: nat) \<in> set (received (run (throwError 0 :: (nat, nat) observable) [Invoke CallStart]))
   \<and> received (run (throwError 0 :: (nat, nat) observable)
        ([Invoke CallStart] @ [Invoke CallStop, Invoke CallStart, Advance 10, Invoke CallResume]))
      = received (run (throwError 0 :: (nat, nat) observable) [Invoke CallStart])
   \<and> observers (run (throwError 0 :: (nat, nat) observable)
        ([Invoke CallStart] @ [Invoke CallStop, Invoke CallStart, Advance 10, Invoke CallResume]))
      = 0"
proof -
  have h: "Error (0 :: nat) \<in> set (received (run (throwError 0 :: (nat, nat) observable) [Invoke CallStart]))"
    by code_simp
  from h producer_error_ends_the_pipeline
    [where ?'a = nat and e = "0 :: nat"
       and evs = "[Invoke CallStop, Invoke CallStart, Advance 10, Invoke CallResume]"
       and src = "throwError 0 :: (nat, nat) observable" and before = "[Invoke CallStart]"
       and e' = 0
       and later = "[Invoke CallStop, Invoke CallStart, Advance 10, Invoke CallResume]"]
  show ?thesis by blast
qed

text \<open>
  Claim C10. A command that is processed while the state is \<open>running\<close> and leaves it
  \<open>running\<close> (\<open>start\<close> or \<open>resume\<close>) makes the gate dispose of the inner subscription it
  holds and subscribe to the producer afresh: the gate log grows by a disposal, if a
  subscription was live, and a subscription; the new subscription dates from the time of
  the command, so the producer hands its synchronous emissions to the observer again and
  a cold producer starts over. The gate does this for every state the reducer emits,
  changed or not.
\<close>

theorem command_while_running_resubscribes:
  assumes "observers (run src evs) \<noteq> 0"
    and "state (run src evs) = Running"
    and "reducer (state (run src evs)) (emitted c) = Running"
  shows "state (run src (evs @ [Invoke c])) = Running
    \<and> gate_log (run src (evs @ [Invoke c])) =
        gate_log (run src evs)
          @ (if innerSubscriber (run src evs) = None then [] else [Disposed])
          @ [Subscribed]
          @ (if terminated (src (now (run src evs)) (now (run src evs))) then [Disposed] else [])
    \<and> innerSubscriber (run src (evs @ [Invoke c])) =
        (if terminated (src (now (run src evs)) (now (run src evs))) then None
         else Some (now (run src evs)))
    \<and> received (run src (evs @ [Invoke c])) =
        received (run src evs) @ forwarded (src (now (run src evs)) (now (run src evs)))"
  using control_next_running [OF assms(1) assms(3), of src]
  by (simp add: run_snoc)

theorem command_while_running_resubscribes_witness:
  "observers (run (interval 50 :: (nat, unit) observable) [Invoke CallStart, Advance 100]) \<noteq> 0
   \<and> state (run (interval 50 :: (nat, unit) observable) [Invoke CallStart, Advance 100]) = Running
   \<and> reducer (state (run (interval 50 :: (nat, unit) observable) [Invoke CallStart, Advance 100]))
        (emitted CallResume) = Running
   \<and> gate_log (run (interval 50 :: (nat, unit) observable)
        ([Invoke CallStart, Advance 100] @ [Invoke CallResume]))
      = [Subscribed, Disposed, Subscribed]
   \<and> innerSubscriber (run (interval 50 :: (nat, unit) observable)
        ([Invoke CallStart, Advance 100] @ [Invoke CallResume])) = Some 100
   \<and> values_of (received (run (interval 50 :: (nat, unit) observable)
        [Invoke CallStart, Advance 100, Invoke CallResume, Advance 100])) = [0, 1, 0, 1]"
proof -
  let ?src = "interval 50 :: (nat, unit) observable"
  let ?evs = "[Invoke CallStart, Advance 100]"
  have h1: "observers (run ?src ?evs) \<noteq> 0" by code_simp
  have h2: "state (run ?src ?evs) = Running" by code_simp
  have h3: "reducer (state (run ?src ?evs)) (emitted CallResume) = Running" by code_simp
  have e1: "gate_log (run ?src ?evs) = [Subscribed]" by code_simp
  have e2: "innerSubscriber (run ?src ?evs) = Some 0" by code_simp
  have e3: "now (run ?src ?evs) = 100" by code_simp
  have e4: "values_of (received (run ?src
      [Invoke CallStart, Advance 100, Invoke CallResume, Advance 100])) = [0, 1, 0, 1]"
    by code_simp
  from command_while_running_resubscribes [OF h1 h2 h3] h1 h2 h3 e1 e2 e3 e4
  show ?thesis by (simp add: interval_def delay_of_def)
qed

text \<open>
  Claim C7 as the specification states it fails: the producer is subscribed afresh by
  \<open>resume\<close>, so the value delivered at t = 450 is 0 again, not 1.
\<close>

theorem pause_resume_scenario_counterexample:
  "values_of (received (run (interval 100 :: (nat, unit) observable)
      [Invoke CallStart, Advance 150, Invoke CallPause, Advance 200, Invoke CallResume,
       Advance 100])) \<noteq> [0, 1]"
  by code_simp

text \<open>
  Claim C7, amended. With a producer that hands each new subscriber the values 0, 1, 2
  and so on, one every 100 time units: after \<open>start\<close> at t = 0 the observer has received
  \<open>[0]\<close> by t = 150; \<open>pause\<close> at t = 150 disposes of the subscription and nothing arrives
  up to t = 350; \<open>resume\<close> at t = 350 subscribes afresh, and at t = 450 the observer has
  received \<open>[0, 0]\<close>.
\<close>

theorem pause_resume_scenario_restarts_producer:
  "values_of (received (run (interval 100 :: (nat, unit) observable)
      [Invoke CallStart, Advance 150])) = [0]
   \<and> run (interval 100 :: (nat, unit) observable)
      [Invoke CallStart, Advance 150, Invoke CallPause, Advance 200]
     = \<lparr>state = Paused, innerSubscriber = None, observers = 1, now = 350,
        received = [Next 0], gate_log = [Subscribed, Disposed]\<rparr>
   \<and> run (interval 100 :: (nat, unit) observable)
      [Invoke CallStart, Advance 150, Invoke CallPause, Advance 200, Invoke CallResume,
       Advance 100]
     = \<lparr>state = Running, innerSubscriber = Some 350, observers = 1, now = 450,
        received = [Next 0, Next 0], gate_log = [Subscribed, Disposed, Subscribed]\<rparr>"
  by code_simp

text \<open>
  Claim C3 as the specification states it fails: a producer that hands over 1, 2, 3 and
  a completion inside \<open>subscribe\<close> leaves the controller \<open>running\<close> after \<open>start\<close>, and the
  caller's observer has received the three values and no completion.
\<close>

theorem completion_not_forwarded_counterexample:
  "(of_values [1, 2, 3] :: (int, unit) observable) 0 0 = [Next 1, Next 2, Next 3, Complete]
   \<and> run (of_values [1, 2, 3] :: (int, unit) observable) [Invoke CallStart]
     = \<lparr>state = Running, innerSubscriber = None, observers = 1, now = 0,
        received = [Next 1, Next 2, Next 3], gate_log = [Subscribed, Disposed]\<rparr>"
  by code_simp

text \<open>
  Claim C3, amended. The caller's observer never receives a completion. When a command
  puts a subscribed chain into \<open>running\<close>, the observer receives what the producer emits
  inside \<open>subscribe\<close>, and while a subscription to the producer is live, which implies
  \<open>running\<close>, it receives what the producer emits as time passes: in both cases every
  value up to the first error or completion, that error if it is an error, and nothing for
  a completion. While the state is \<open>paused\<close> or \<open>stopped\<close> the observer receives nothing,
  neither when time passes nor from the command that leads there.
\<close>

theorem gate_forwards_values_and_errors:
  "Complete \<notin> set (received (run src evs))
   \<and> forwarded (map Next vs) = map Next vs
   \<and> forwarded (map Next vs @ Error e # ns) = map Next vs @ [Error e]
   \<and> forwarded (map Next vs @ Complete # ns) = map Next vs
   \<and> (observers (run src evs) \<noteq> 0 \<and> reducer (state (run src evs)) (emitted c) = Running \<longrightarrow>
        received (run src (evs @ [Invoke c]))
          = received (run src evs) @ forwarded (src (now (run src evs)) (now (run src evs))))
   \<and> (innerSubscriber (run src evs) = Some since \<longrightarrow>
        state (run src evs) = Running
        \<and> received (run src (evs @ [Advance 1]))
          = received (run src evs) @ forwarded (src since (now (run src evs) + 1)))
   \<and> (state (run src evs) \<noteq> Running \<longrightarrow>
        received (run src (evs @ [Advance d])) = received (run src evs))
   \<and> (reducer (state (run src evs)) (emitted c) \<noteq> Running \<longrightarrow>
        received (run src (evs @ [Invoke c])) = received (run src evs))"
proof (intro conjI impI)
  have c: "consistent (run src evs)" by (rule consistent_run)
  then show "Complete \<notin> set (received (run src evs))"
    by (simp add: consistent_def)
  show "forwarded (map Next vs) = map Next vs"
    by (rule forwarded_values)
  show "forwarded (map Next vs @ Error e # ns) = map Next vs @ [Error e]"
    by (rule forwarded_values_error)
  show "forwarded (map Next vs @ Complete # ns) = map Next vs"
    by (rule forwarded_values_complete)
  {
    assume "observers (run src evs) \<noteq> 0 \<and> reducer (state (run src evs)) (emitted c) = Running"
    then have o: "observers (run src evs) \<noteq> 0"
      and r: "reducer (state (run src evs)) (emitted c) = Running"
      by simp_all
    from control_next_running(1) [OF o r, of src]
    show "received (run src (evs @ [Invoke c]))
          = received (run src evs) @ forwarded (src (now (run src evs)) (now (run src evs)))"
      by (simp add: run_snoc)
  }
  {
    assume i: "innerSubscriber (run src evs) = Some since"
    with c show "state (run src evs) = Running"
      by (auto simp: consistent_def)
    from i show "received (run src (evs @ [Advance 1]))
          = received (run src evs) @ forwarded (src since (now (run src evs) + 1))"
      by (simp add: run_snoc tick_fields)
  }
  {
    assume "state (run src evs) \<noteq> Running"
    with c have "innerSubscriber (run src evs) = None"
      by (simp add: consistent_def)
    then show "received (run src (evs @ [Advance d])) = received (run src evs)"
      by (simp add: run_snoc advance_not_subscribed)
  }
  {
    assume "reducer (state (run src evs)) (emitted c) \<noteq> Running"
    from control_next_not_running(1) [OF this, of src]
    show "received (run src (evs @ [Invoke c])) = received (run src evs)"
      by (simp add: run_snoc)
  }
qed

theorem gate_forwards_values_and_errors_witness:
  "(observers (run (interval 100 :: (nat, unit) observable) []) \<noteq> 0
      \<and> reducer (state (run (interval 100 :: (nat, unit) observable) [])) (emitted CallStart)
          = Running)
   \<and> innerSubscriber (run (interval 100 :: (nat, unit) observable)
        [Invoke CallStart, Advance 99]) = Some 0
   \<and> received (run (interval 100 :: (nat, unit) observable)
        ([Invoke CallStart, Advance 99] @ [Advance 1])) = [Next 0]
   \<and> state (run (interval 100 :: (nat, unit) observable)
        [Invoke CallStart, Advance 150, Invoke CallPause]) \<noteq> Running
   \<and> received (run (interval 100 :: (nat, unit) observable)
        ([Invoke CallStart, Advance 150, Invoke CallPause] @ [Advance 200]))
      = received (run (interval 100 :: (nat, unit) observable)
        [Invoke CallStart, Advance 150, Invoke CallPause])
   \<and> reducer (state (run (interval 100 :: (nat, unit) observable)
        [Invoke CallStart, Advance 150])) (emitted CallPause) \<noteq> Running
   \<and> received (run (interval 100 :: (nat, unit) observable)
        ([Invoke CallStart, Advance 150] @ [Invoke CallPause]))
      = received (run (interval 100 :: (nat, unit) observable) [Invoke CallStart, Advance 150])
   \<and> received (run (interval 100 :: (nat, unit) observable) ([] @ [Invoke CallStart])) = []"
proof -
  let ?src = "interval 100 :: (nat, unit) observable"
  have h1: "observers (run ?src []) \<noteq> 0
      \<and> reducer (state (run ?src [])) (emitted CallStart) = Running"
    by code_simp
  have h2: "innerSubscriber (run ?src [Invoke CallStart, Advance 99]) = Some 0"
    by code_simp
  have h3: "state (run ?src [Invoke CallStart, Advance 150, Invoke CallPause]) \<noteq> Running"
    by code_simp
  have h4: "reducer (state (run ?src [Invoke CallStart, Advance 150])) (emitted CallPause)
      \<noteq> Running"
    by code_simp
  have e1: "received (run ?src []) = []" "now (run ?src []) = 0"
    by code_simp+
  have e2: "received (run ?src [Invoke CallStart, Advance 99]) = []"
    "now (run ?src [Invoke CallStart, Advance 99]) = 99"
    by code_simp+
  from gate_forwards_values_and_errors
      [where src = ?src and evs = "[]" and c = CallStart and vs = "[]"] h1 e1
  have a: "received (run ?src ([] @ [Invoke CallStart])) = []"
    by (simp add: interval_def delay_of_def)
  from gate_forwards_values_and_errors
      [where src = ?src and evs = "[Invoke CallStart, Advance 99]" and since = 0 and vs = "[]"]
    h2 e2
  have b: "received (run ?src ([Invoke CallStart, Advance 99] @ [Advance 1])) = [Next 0]"
    by (simp add: interval_def delay_of_def)
  from gate_forwards_values_and_errors
      [where src = ?src and evs = "[Invoke CallStart, Advance 150, Invoke CallPause]"
         and d = 200 and vs = "[]"] h3
  have c: "received (run ?src ([Invoke CallStart, Advance 150, Invoke CallPause] @ [Advance 200]))
      = received (run ?src [Invoke CallStart, Advance 150, Invoke CallPause])"
    by simp
  from gate_forwards_values_and_errors
      [where src = ?src and evs = "[Invoke CallStart, Advance 150]" and c = CallPause
         and vs = "[]"] h4
  have d: "received (run ?src ([Invoke CallStart, Advance 150] @ [Invoke CallPause]))
      = received (run ?src [Invoke CallStart, Advance 150])"
    by simp
  from h1 h2 h3 h4 a b c d show ?thesis by simp
qed

text \<open>
  Claim C4 as the specification states it fails: no member of the returned handle is an
  unsubscribe operation. Whichever member is called after \<open>start\<close>, a later \<open>start\<close> makes
  the caller's observer receive a further value.
\<close>

theorem no_handle_member_unsubscribes_counterexample:
  "received (run (of_values [7] :: (int, unit) observable)
      [Invoke CallStart, Invoke CallStart, Invoke CallStart])
     \<noteq> received (run (of_values [7] :: (int, unit) observable)
      [Invoke CallStart, Invoke CallStart])
   \<and> received (run (of_values [7] :: (int, unit) observable)
      [Invoke CallStart, Invoke CallStop, Invoke CallStart])
     \<noteq> received (run (of_values [7] :: (int, unit) observable)
      [Invoke CallStart, Invoke CallStop])
   \<and> received (run (of_values [7] :: (int, unit) observable)
      [Invoke CallStart, Invoke CallPause, Invoke CallStart])
     \<noteq> received (run (of_values [7] :: (int, unit) observable)
      [Invoke CallStart, Invoke CallPause])
   \<and> received (run (of_values [7] :: (int, unit) observable)
      [Invoke CallStart, Invoke CallResume, Invoke CallStart])
     \<noteq> received (run (of_values [7] :: (int, unit) observable)
      [Invoke CallStart, Invoke CallResume])
   \<and> received (run (of_values [7] :: (int, unit) observable)
      [Invoke CallStart, Invoke (CallCommand Start), Invoke CallStart])
     \<noteq> received (run (of_values [7] :: (int, unit) observable)
      [Invoke CallStart, Invoke (CallCommand Start)])
   \<and> received (run (of_values [7] :: (int, unit) observable)
      [Invoke CallStart, Invoke (CallCommand Stop), Invoke CallStart])
     \<noteq> received (run (of_values [7] :: (int, unit) observable)
      [Invoke CallStart, Invoke (CallCommand Stop)])
   \<and> received (run (of_values [7] :: (int, unit) observable)
      [Invoke CallStart, Invoke (CallCommand Pause), Invoke CallStart])
     \<noteq> received (run (of_values [7] :: (int, unit) observable)
      [Invoke CallStart, Invoke (CallCommand Pause)])
   \<and> received (run (of_values [7] :: (int, unit) observable)
      [Invoke CallStart, Invoke (CallCommand Resume), Invoke CallStart])
     \<noteq> received (run (of_values [7] :: (int, unit) observable)
      [Invoke CallStart, Invoke (CallCommand Resume)])"
  by code_simp

text \<open>
  Claim C4, amended. The handle has the members \<open>start\<close>, \<open>stop\<close>, \<open>pause\<close>, \<open>resume\<close> and
  \<open>command\<close> and no unsubscribe operation; each member only pushes a command into the
  control channel. The chain stops observing the control channel only when the producer
  raises an error, which the caller's observer then has received; on a producer that
  never fails it keeps observing whatever is called and however much time passes. On a
  chain that still observes, \<open>start\<close> subscribes to the producer once more and hands the
  observer what the producer emits on subscription. \<open>stop\<close> leaves no subscription to the
  producer alive, and nothing is delivered by it or while time passes after it.
\<close>

theorem handle_members_only_issue_commands:
  "(observers (run src evs) = 0 \<longrightarrow> (\<exists>n \<in> set (received (run src evs)). is_error n))
   \<and> (never_fails src \<longrightarrow> observers (run src evs) = 1)
   \<and> (observers (run src evs) \<noteq> 0 \<longrightarrow>
        received (run src (evs @ [Invoke CallStart]))
          = received (run src evs) @ forwarded (src (now (run src evs)) (now (run src evs)))
        \<and> count_list (gate_log (run src (evs @ [Invoke CallStart]))) Subscribed
          = count_list (gate_log (run src evs)) Subscribed + 1)
   \<and> innerSubscriber (run src (evs @ [Invoke CallStop])) = None
   \<and> live (gate_log (run src (evs @ [Invoke CallStop]))) = 0
   \<and> received (run src (evs @ [Invoke CallStop, Advance d])) = received (run src evs)"
proof (intro conjI impI)
  have c: "consistent (run src evs)" by (rule consistent_run)
  {
    assume "observers (run src evs) = 0"
    with c show "\<exists>n \<in> set (received (run src evs)). is_error n"
      by (simp add: consistent_def)
  }
  {
    assume "never_fails src"
    then show "observers (run src evs) = 1" by (rule run_never_fails)
  }
  {
    assume o: "observers (run src evs) \<noteq> 0"
    have r: "reducer (state (run src evs)) Start = Running" by simp
    from control_next_running(1) [OF o r, of src]
    show "received (run src (evs @ [Invoke CallStart]))
          = received (run src evs) @ forwarded (src (now (run src evs)) (now (run src evs)))"
      by (simp add: run_snoc)
    from control_next_running(2) [OF o r, of src]
    show "count_list (gate_log (run src (evs @ [Invoke CallStart]))) Subscribed
          = count_list (gate_log (run src evs)) Subscribed + 1"
      by (simp add: run_snoc)
  }
  have nr: "reducer (state (run src evs)) Stop \<noteq> Running"
    by (simp add: reducer_def)
  have i: "innerSubscriber (run src (evs @ [Invoke CallStop])) = None"
  proof (cases "observers (run src evs) = 0")
    case True
    with c show ?thesis
      by (simp add: run_snoc control_next_def consistent_def)
  next
    case False
    with on_action_not_running(3) [OF nr, of src] show ?thesis
      by (simp add: run_snoc control_next_def)
  qed
  then show "innerSubscriber (run src (evs @ [Invoke CallStop])) = None" .
  have "consistent (run src (evs @ [Invoke CallStop]))" by (rule consistent_run)
  with i show "live (gate_log (run src (evs @ [Invoke CallStop]))) = 0"
    by (simp add: consistent_def)
  have "run src (evs @ [Invoke CallStop, Advance d])
      = advance src d (run src (evs @ [Invoke CallStop]))"
    using run_snoc [of src "evs @ [Invoke CallStop]" "Advance d"] by simp
  with i have "received (run src (evs @ [Invoke CallStop, Advance d]))
      = received (run src (evs @ [Invoke CallStop]))"
    by (simp add: advance_not_subscribed)
  with control_next_not_running(1) [OF nr, of src]
  show "received (run src (evs @ [Invoke CallStop, Advance d])) = received (run src evs)"
    by (simp add: run_snoc)
qed

theorem handle_members_only_issue_commands_witness:
  "never_fails (of_values [1, 2, 3] :: (int, unit) observable)
   \<and> observers (run (of_values [1, 2, 3] :: (int, unit) observable)
        [Invoke CallStart, Invoke CallStop, Invoke CallPause]) = 1
   \<and> received (run (of_values [1, 2, 3] :: (int, unit) observable)
        ([Invoke CallStart, Invoke CallStop, Invoke CallPause] @ [Invoke CallStart]))
      = [Next 1, Next 2, Next 3, Next 1, Next 2, Next 3]
   \<and> observers (run (throwError 0 :: (int, nat) observable) [Invoke CallStart]) = 0
   \<and> (\<exists>n \<in> set (received (run (throwError 0 :: (int, nat) observable) [Invoke CallStart])).
        is_error n)"
proof -
  let ?src = "of_values [1, 2, 3] :: (int, unit) observable"
  let ?evs = "[Invoke CallStart, Invoke CallStop, Invoke CallPause]"
  let ?bad = "throwError 0 :: (int, nat) observable"
  have h1: "never_fails ?src" by (rule of_values_never_fails)
  have h2: "observers (run ?bad [Invoke CallStart]) = 0" by code_simp
  have e: "received (run ?src ?evs) = [Next 1, Next 2, Next 3]"
    "forwarded (?src (now (run ?src ?evs)) (now (run ?src ?evs))) = [Next 1, Next 2, Next 3]"
    by code_simp+
  from handle_members_only_issue_commands [where src = ?src and evs = ?evs] h1
  have a: "observers (run ?src ?evs) = 1"
    and b: "observers (run ?src ?evs) \<noteq> 0 \<longrightarrow>
      received (run ?src (?evs @ [Invoke CallStart]))
        = received (run ?src ?evs) @ forwarded (?src (now (run ?src ?evs)) (now (run ?src ?evs)))"
    by simp_all
  from a b e have b': "received (run ?src (?evs @ [Invoke CallStart]))
      = [Next 1, Next 2, Next 3, Next 1, Next 2, Next 3]"
    by simp
  from handle_members_only_issue_commands [where src = ?bad and evs = "[Invoke CallStart]"] h2
  have c: "\<exists>n \<in> set (received (run ?bad [Invoke CallStart])). is_error n"
    by simp
  from h1 h2 a b' c show ?thesis by simp
qed

text \<open>
  Claim C2 as the specification states it fails: after \<open>start\<close> on a producer that hands
  over its values and completes inside \<open>subscribe\<close>, the state is \<open>running\<close> and no
  subscription to the producer is alive.
\<close>

theorem running_without_subscription_counterexample:
  "state (run (of_values [1, 2, 3] :: (int, unit) observable) [Invoke CallStart]) = Running
   \<and> live (gate_log (run (of_values [1, 2, 3] :: (int, unit) observable) [Invoke CallStart])) = 0
   \<and> innerSubscriber (run (of_values [1, 2, 3] :: (int, unit) observable) [Invoke CallStart]) = None"
  by code_simp

text \<open>
  Claim C2, amended. At every point of the log of the gate, so at every point of the
  lifetime of a controller, the number of live subscriptions to the producer is zero or
  one. It is zero whenever the state is \<open>paused\<close> or \<open>stopped\<close>, and once a producer error
  has taken the chain off the control subject. After a processed command that yields
  \<open>running\<close>, and while time passes after it, the state is \<open>running\<close> and exactly one
  subscription is live as long as the producer has not ended that subscription by a
  completion or an error; once it has, none is live. The gate subscribes to the producer
  exactly once per transition into \<open>running\<close>, that is per processed command that takes
  the state from \<open>stopped\<close> or \<open>paused\<close> to \<open>running\<close>, or \<open>start\<close> processed while
  \<open>running\<close>; it does not subscribe on a command that yields \<open>paused\<close> or \<open>stopped\<close>, nor
  because time passes.
\<close>

theorem gate_keeps_at_most_one_subscription:
  "(\<forall>n. 0 \<le> live (take n (gate_log (run src evs)))
        \<and> live (take n (gate_log (run src evs))) \<le> 1)
   \<and> (state (run src evs) \<noteq> Running \<longrightarrow> live (gate_log (run src evs)) = 0)
   \<and> (observers (run src evs) = 0 \<longrightarrow> live (gate_log (run src evs)) = 0)
   \<and> (observers (run src evs) \<noteq> 0 \<and> reducer (state (run src evs)) (emitted c) = Running \<longrightarrow>
        state (run src (evs @ Invoke c # map Advance ds)) = Running
        \<and> live (gate_log (run src (evs @ Invoke c # map Advance ds)))
            = (if ended src (now (run src evs)) (now (run src evs) + sum_list ds) then 0 else 1))
   \<and> (observers (run src evs) \<noteq> 0 \<and> reducer (state (run src evs)) (emitted c) = Running
        \<and> (state (run src evs) \<noteq> Running \<or> emitted c = Start) \<longrightarrow>
        count_list (gate_log (run src (evs @ [Invoke c]))) Subscribed
          = count_list (gate_log (run src evs)) Subscribed + 1)
   \<and> (reducer (state (run src evs)) (emitted c) \<noteq> Running \<longrightarrow>
        count_list (gate_log (run src (evs @ [Invoke c]))) Subscribed
          = count_list (gate_log (run src evs)) Subscribed)
   \<and> count_list (gate_log (run src (evs @ [Advance d]))) Subscribed
        = count_list (gate_log (run src evs)) Subscribed"
proof (intro conjI impI)
  have c: "consistent (run src evs)" by (rule consistent_run)
  then show "\<forall>n. 0 \<le> live (take n (gate_log (run src evs)))
        \<and> live (take n (gate_log (run src evs))) \<le> 1"
    by (simp add: consistent_def)
  {
    assume "state (run src evs) \<noteq> Running"
    with c show "live (gate_log (run src evs)) = 0"
      by (simp add: consistent_def)
  }
  {
    assume "observers (run src evs) = 0"
    with c show "live (gate_log (run src evs)) = 0"
      by (simp add: consistent_def)
  }
  {
    assume "observers (run src evs) \<noteq> 0 \<and> reducer (state (run src evs)) (emitted c) = Running"
    then have o: "observers (run src evs) \<noteq> 0"
      and r: "reducer (state (run src evs)) (emitted c) = Running"
      by simp_all
    let ?evs = "evs @ Invoke c # map Advance ds"
    have "run src ?evs = exec src (map Advance ds) (run src (evs @ [Invoke c]))"
      using run_append [of src "evs @ [Invoke c]" "map Advance ds"] by simp
    then have eq: "run src ?evs
        = advance src (sum_list ds) (control_next src (emitted c) (run src evs))"
      by (simp add: exec_advances run_snoc)
    from control_next_running(5) [OF o r, of src] eq
    show "state (run src ?evs) = Running" by simp
    have "consistent (run src ?evs)" by (rule consistent_run)
    from live_innerSubscriber [OF this] subscribed_then_advance [OF o r, of src "sum_list ds"] eq
    show "live (gate_log (run src ?evs))
        = (if ended src (now (run src evs)) (now (run src evs) + sum_list ds) then 0 else 1)"
      by simp
  }
  {
    assume "observers (run src evs) \<noteq> 0 \<and> reducer (state (run src evs)) (emitted c) = Running
        \<and> (state (run src evs) \<noteq> Running \<or> emitted c = Start)"
    then have o: "observers (run src evs) \<noteq> 0"
      and r: "reducer (state (run src evs)) (emitted c) = Running"
      by simp_all
    from control_next_running(2) [OF o r, of src]
    show "count_list (gate_log (run src (evs @ [Invoke c]))) Subscribed
          = count_list (gate_log (run src evs)) Subscribed + 1"
      by (simp add: run_snoc)
  }
  {
    assume "reducer (state (run src evs)) (emitted c) \<noteq> Running"
    from control_next_not_running(2) [OF this, of src]
    show "count_list (gate_log (run src (evs @ [Invoke c]))) Subscribed
          = count_list (gate_log (run src evs)) Subscribed"
      by (simp add: run_snoc)
  }
  show "count_list (gate_log (run src (evs @ [Advance d]))) Subscribed
        = count_list (gate_log (run src evs)) Subscribed"
    by (simp add: run_snoc advance_subscriptions)
qed

theorem gate_keeps_at_most_one_subscription_witness:
  "state (run (of_values_after 10 [1, 2, 3] :: (int, unit) observable) []) \<noteq> Running
   \<and> live (gate_log (run (of_values_after 10 [1, 2, 3] :: (int, unit) observable) [])) = 0
   \<and> observers (run (throwError 0 :: (int, nat) observable) [Invoke CallStart]) = 0
   \<and> live (gate_log (run (throwError 0 :: (int, nat) observable) [Invoke CallStart])) = 0
   \<and> observers (run (of_values_after 10 [1, 2, 3] :: (int, unit) observable) []) \<noteq> 0
   \<and> reducer (state (run (of_values_after 10 [1, 2, 3] :: (int, unit) observable) []))
        (emitted CallStart) = Running
   \<and> emitted CallStart = Start
   \<and> live (gate_log (run (of_values_after 10 [1, 2, 3] :: (int, unit) observable)
        ([] @ Invoke CallStart # map Advance [4, 5]))) = 1
   \<and> state (run (of_values_after 10 [1, 2, 3] :: (int, unit) observable)
        ([] @ Invoke CallStart # map Advance [4, 6])) = Running
   \<and> live (gate_log (run (of_values_after 10 [1, 2, 3] :: (int, unit) observable)
        ([] @ Invoke CallStart # map Advance [4, 6]))) = 0
   \<and> count_list (gate_log (run (of_values_after 10 [1, 2, 3] :: (int, unit) observable)
        ([] @ [Invoke CallStart]))) Subscribed = 1
   \<and> reducer (state (run (of_values_after 10 [1, 2, 3] :: (int, unit) observable)
        [Invoke CallStart])) (emitted CallPause) \<noteq> Running
   \<and> count_list (gate_log (run (of_values_after 10 [1, 2, 3] :: (int, unit) observable)
        ([Invoke CallStart] @ [Invoke CallPause]))) Subscribed = 1"
proof -
  let ?src = "of_values_after 10 [1, 2, 3] :: (int, unit) observable"
  let ?bad = "throwError 0 :: (int, nat) observable"
  have h1: "state (run ?src []) \<noteq> Running" by code_simp
  have h2: "observers (run ?bad [Invoke CallStart]) = 0" by code_simp
  have h3: "observers (run ?src []) \<noteq> 0
      \<and> reducer (state (run ?src [])) (emitted CallStart) = Running
      \<and> (state (run ?src []) \<noteq> Running \<or> emitted CallStart = Start)"
    by code_simp
  have h4: "reducer (state (run ?src [Invoke CallStart])) (emitted CallPause) \<noteq> Running"
    by code_simp
  have e1: "\<not> ended ?src (now (run ?src [])) (now (run ?src []) + sum_list [4, 5])"
    by code_simp
  have e2: "ended ?src (now (run ?src [])) (now (run ?src []) + sum_list [4, 6])"
    by code_simp
  have e3: "count_list (gate_log (run ?src [])) Subscribed = 0"
    "count_list (gate_log (run ?src [Invoke CallStart])) Subscribed = 1"
    by code_simp+
  from gate_keeps_at_most_one_subscription [where src = ?src and evs = "[]"] h1
  have a: "live (gate_log (run ?src [])) = 0" by blast
  from gate_keeps_at_most_one_subscription [where src = ?bad and evs = "[Invoke CallStart]"] h2
  have b: "live (gate_log (run ?bad [Invoke CallStart])) = 0" by blast
  from gate_keeps_at_most_one_subscription
    [where src = ?src and evs = "[]" and c = CallStart and ds = "[4, 5]"] h3 e1
  have c: "live (gate_log (run ?src ([] @ Invoke CallStart # map Advance [4, 5]))) = 1"
    by presburger
  from gate_keeps_at_most_one_subscription
    [where src = ?src and evs = "[]" and c = CallStart and ds = "[4, 6]"] h3 e2
  have d: "state (run ?src ([] @ Invoke CallStart # map Advance [4, 6])) = Running
      \<and> live (gate_log (run ?src ([] @ Invoke CallStart # map Advance [4, 6]))) = 0"
    by presburger
  from gate_keeps_at_most_one_subscription
    [where src = ?src and evs = "[]" and c = CallStart] h3 e3(1)
  have e: "count_list (gate_log (run ?src ([] @ [Invoke CallStart]))) Subscribed = 1"
    by simp
  from gate_keeps_at_most_one_subscription
    [where src = ?src and evs = "[Invoke CallStart]" and c = CallPause] h4 e3(2)
  have f: "count_list (gate_log (run ?src ([Invoke CallStart] @ [Invoke CallPause]))) Subscribed = 1"
    by simp
  have g: "emitted CallStart = Start" by simp
  from h1 h2 h3 h4 a b c d e f g show ?thesis by blast
qed

text \<open>
  Claim C5 as the specification states it fails for a cold producer that is still to
  emit when the second \<open>start\<close> arrives: with a producer that hands each subscriber 1, 2,
  3 and a completion ten time units after it subscribed, two \<open>start\<close> calls in succession
  make the observer receive 1, 2, 3 once, however long one waits.
\<close>

theorem start_twice_on_delayed_producer_counterexample:
  "(of_values_after 10 [1, 2, 3] :: (int, unit) observable) 0 10
     = [Next 1, Next 2, Next 3, Complete]
   \<and> values_of (received (run (of_values_after 10 [1, 2, 3] :: (int, unit) observable)
        [Invoke CallStart, Invoke CallStart, Advance 10])) = [1, 2, 3]
   \<and> values_of (received (run (of_values_after 10 [1, 2, 3] :: (int, unit) observable)
        [Invoke CallStart, Invoke CallStart, Advance 500])) \<noteq> [1, 2, 3, 1, 2, 3]"
  by code_simp

text \<open>
  Claim C5, amended. On a cold producer that hands the values \<open>vs\<close> to each new
  subscriber inside \<open>subscribe\<close> and completes, as \<^verbatim>\<open>of(1, 2, 3)\<close> does, two \<open>start\<close> calls
  in succession make the caller's observer receive \<open>vs\<close> twice, \<open>[1, 2, 3, 1, 2, 3]\<close> for
  \<open>[1, 2, 3]\<close>. A \<open>start\<close> issued while a subscription to the producer is live, which
  implies \<open>running\<close>, disposes of that subscription and then subscribes afresh: the
  new subscription dates from the time of the call, so the producer starts over, and
  what the disposed subscription had not yet emitted is not delivered. With the producer
  that emits 1, 2, 3 ten time units after subscription, two \<open>start\<close> calls in succession
  deliver 1, 2, 3 once, ten time units later.
\<close>

theorem start_twice_replays_cold_producer:
  "received (run (of_values vs :: ('a, 'e) observable) [Invoke CallStart, Invoke CallStart])
       = map Next (vs @ vs)
   \<and> gate_log (run (of_values vs :: ('a, 'e) observable) [Invoke CallStart, Invoke CallStart])
       = [Subscribed, Disposed, Subscribed, Disposed]
   \<and> state (run (of_values vs :: ('a, 'e) observable) [Invoke CallStart]) = Running
   \<and> values_of (received (run (of_values [1, 2, 3] :: (int, 'e) observable)
         [Invoke CallStart, Invoke CallStart]))
       = [1, 2, 3, 1, 2, 3]
   \<and> (innerSubscriber (run src evs) = Some since \<longrightarrow>
        state (run src evs) = Running
        \<and> state (run src (evs @ [Invoke CallStart])) = Running
        \<and> gate_log (run src (evs @ [Invoke CallStart]))
            = gate_log (run src evs) @ [Disposed, Subscribed]
                @ (if terminated (src (now (run src evs)) (now (run src evs))) then [Disposed]
                   else [])
        \<and> innerSubscriber (run src (evs @ [Invoke CallStart]))
            = (if terminated (src (now (run src evs)) (now (run src evs))) then None
               else Some (now (run src evs)))
        \<and> received (run src (evs @ [Invoke CallStart]))
            = received (run src evs) @ forwarded (src (now (run src evs)) (now (run src evs))))
   \<and> run (of_values_after 10 [1, 2, 3] :: (int, unit) observable)
        [Invoke CallStart, Invoke CallStart, Advance 10]
       = \<lparr>state = Running, innerSubscriber = None, observers = 1, now = 10,
          received = [Next 1, Next 2, Next 3],
          gate_log = [Subscribed, Disposed, Subscribed, Disposed]\<rparr>"
proof -
  define st0 :: "('a, 'e) pausable" where "st0 = createPausable (of_values vs)"
  define st1 where "st1 = on_action (of_values vs) Start st0"
  define st2 where "st2 = on_action (of_values vs) Start st1"
  have r0: "reducer (state st0) Start = Running" by simp
  have f1: "received st1 = map Next vs" "gate_log st1 = [Subscribed, Disposed]"
    "observers st1 = 1" "state st1 = Running" "innerSubscriber st1 = None"
    unfolding st1_def using on_action_running [OF r0, of "of_values vs"]
    by (simp_all add: of_values_sync st0_def createPausable_eq)
  have r1: "reducer (state st1) Start = Running" by simp
  have f2: "received st2 = map Next vs @ map Next vs"
    "gate_log st2 = [Subscribed, Disposed, Subscribed, Disposed]"
    unfolding st2_def using on_action_running [OF r1, of "of_values vs"] f1
    by (simp_all add: of_values_sync)
  have run1: "run (of_values vs) [Invoke CallStart] = st1"
    by (simp add: run_def exec_def control_next_def st1_def st0_def createPausable_eq)
  have "run (of_values vs) [Invoke CallStart, Invoke CallStart]
      = control_next (of_values vs) Start st1"
    unfolding run1 [symmetric] by (simp add: run_def exec_def)
  then have run2: "run (of_values vs) [Invoke CallStart, Invoke CallStart] = st2"
    using f1 by (simp add: control_next_def st2_def)
  have sync: "received (run (of_values vs :: ('a, 'e) observable)
        [Invoke CallStart, Invoke CallStart]) = map Next (vs @ vs)
      \<and> gate_log (run (of_values vs :: ('a, 'e) observable) [Invoke CallStart, Invoke CallStart])
        = [Subscribed, Disposed, Subscribed, Disposed]
      \<and> state (run (of_values vs :: ('a, 'e) observable) [Invoke CallStart]) = Running"
    using f1 f2 run1 run2 by simp
  have concrete: "values_of (received (run (of_values [1, 2, 3] :: (int, 'e) observable)
      [Invoke CallStart, Invoke CallStart])) = [1, 2, 3, 1, 2, 3]"
    by code_simp
  have delayed: "run (of_values_after 10 [1, 2, 3] :: (int, unit) observable)
        [Invoke CallStart, Invoke CallStart, Advance 10]
       = \<lparr>state = Running, innerSubscriber = None, observers = 1, now = 10,
          received = [Next 1, Next 2, Next 3],
          gate_log = [Subscribed, Disposed, Subscribed, Disposed]\<rparr>"
    by code_simp
  have teardown: "state (run src evs) = Running
        \<and> state (run src (evs @ [Invoke CallStart])) = Running
        \<and> gate_log (run src (evs @ [Invoke CallStart]))
            = gate_log (run src evs) @ [Disposed, Subscribed]
                @ (if terminated (src (now (run src evs)) (now (run src evs))) then [Disposed]
                   else [])
        \<and> innerSubscriber (run src (evs @ [Invoke CallStart]))
            = (if terminated (src (now (run src evs)) (now (run src evs))) then None
               else Some (now (run src evs)))
        \<and> received (run src (evs @ [Invoke CallStart]))
            = received (run src evs) @ forwarded (src (now (run src evs)) (now (run src evs)))"
    if i: "innerSubscriber (run src evs) = Some since"
  proof -
    have c: "consistent (run src evs)" by (rule consistent_run)
    with i have o: "observers (run src evs) \<noteq> 0" and s: "state (run src evs) = Running"
      by (auto simp: consistent_def)
    have r: "reducer (state (run src evs)) Start = Running" by simp
    from control_next_running [OF o r, of src] i s show ?thesis
      by (simp add: run_snoc)
  qed
  from sync concrete delayed teardown show ?thesis by blast
qed

theorem start_twice_replays_cold_producer_witness:
  "innerSubscriber (run (of_values_after 10 [1, 2, 3] :: (int, unit) observable)
        [Invoke CallStart, Advance 4]) = Some 0
   \<and> gate_log (run (of_values_after 10 [1, 2, 3] :: (int, unit) observable)
        ([Invoke CallStart, Advance 4] @ [Invoke CallStart]))
      = [Subscribed, Disposed, Subscribed]
   \<and> innerSubscriber (run (of_values_after 10 [1, 2, 3] :: (int, unit) observable)
        ([Invoke CallStart, Advance 4] @ [Invoke CallStart])) = Some 4"
proof -
  let ?src = "of_values_after 10 [1, 2, 3] :: (int, unit) observable"
  let ?evs = "[Invoke CallStart, Advance 4]"
  have h: "innerSubscriber (run ?src ?evs) = Some 0" by code_simp
  have e: "gate_log (run ?src ?evs) = [Subscribed]" "now (run ?src ?evs) = 4"
    "\<not> terminated (?src 4 4)"
    by code_simp+
  from start_twice_replays_cold_producer
    [where src = ?src and evs = ?evs and since = 0 and vs = "[]" and ?'a = int and ?'e = unit] h e
  show ?thesis by simp
qed

end
